theory Spec2Isabelle
  imports Complex_Main "HOL-Library.AList"
begin

section \<open>Wikipedia principal eigenvector: redirects, adjacency matrix, centrality\<close>

text \<open>
  The development follows the code cell of \<^verbatim>\<open>wikipedia-principal.ipynb\<close> (a Python 2.7
  notebook): \<^verbatim>\<open>index\<close>, \<^verbatim>\<open>short_name\<close>, \<^verbatim>\<open>get_redirects\<close>,
  \<^verbatim>\<open>get_adjacency_matrix\<close> and \<^verbatim>\<open>centrality_scores\<close>.

  \<^item> A Python \<^verbatim>\<open>dict\<close> is an association list: \<open>map_of\<close> is \<^verbatim>\<open>d.get(k)\<close>,
    \<open>AList.update k v\<close> is \<^verbatim>\<open>d[k] = v\<close> (it overwrites a present key in place and
    appends an absent one), \<open>length\<close> is \<^verbatim>\<open>len(d)\<close> (the lists built here have
    distinct keys).
  \<^item> The decompressed file is the list of its lines, each a byte string.
  \<^item> An exception is a value of type \<open>error\<close>; a loop that may not return yields
    \<open>None\<close>.
\<close>

subsection \<open>Data model\<close>

datatype error = KeyError | IndexError | ZeroDivisionError | ValueError

type_synonym name = string

type_synonym redirect_map = "(name \<times> name) list"

type_synonym index_map = "(name \<times> nat) list"

subsection \<open>Parsing of N-Triples lines\<close>

text \<open>\<^verbatim>\<open>str.split()\<close> without argument: the maximal runs of non-whitespace bytes.\<close>

definition isspace :: "char \<Rightarrow> bool" where
  "isspace c = (c = CHR '' '' \<or> c = CHR 0x09 \<or> c = CHR 0x0A \<or> c = CHR 0x0B
                \<or> c = CHR 0x0C \<or> c = CHR 0x0D)"

fun split_from :: "string \<Rightarrow> string \<Rightarrow> string list" where
  "split_from tok [] = (if tok = [] then [] else [tok])"
| "split_from tok (c # cs) =
     (if isspace c then (if tok = [] then split_from [] cs else tok # split_from [] cs)
      else split_from (tok @ [c]) cs)"

definition split :: "string \<Rightarrow> string list" where
  "split line = split_from [] line"

definition DBPEDIA_RESOURCE_PREFIX_LEN :: nat where
  "DBPEDIA_RESOURCE_PREFIX_LEN = length ''http://dbpedia.org/resource/''"

text \<open>\<^verbatim>\<open>nt_uri[DBPEDIA_RESOURCE_PREFIX_LEN + 1 : -1]\<close>: drop the last byte, then the
  first \<open>DBPEDIA_RESOURCE_PREFIX_LEN + 1\<close> bytes; a slice never raises.\<close>

definition short_name :: "string \<Rightarrow> name" where
  "short_name nt_uri = drop (DBPEDIA_RESOURCE_PREFIX_LEN + 1) (butlast nt_uri)"

subsection \<open>\<^verbatim>\<open>get_redirects\<close>\<close>

text \<open>The first loop of \<^verbatim>\<open>get_redirects\<close>: lines that do not split into four tokens
  are ignored, the others store subject \<open>\<mapsto>\<close> object.\<close>

fun parse_redirects :: "string list \<Rightarrow> redirect_map \<Rightarrow> redirect_map" where
  "parse_redirects [] redirects = redirects"
| "parse_redirects (line # rest) redirects =
     (let split = split line in
      if length split \<noteq> 4 then parse_redirects rest redirects
      else parse_redirects rest
             (AList.update (short_name (split ! 0)) (short_name (split ! 2)) redirects))"

text \<open>
  The inner \<^verbatim>\<open>while True\<close> loop, entered with \<open>target\<close> and \<open>seen\<close>:
  \<^verbatim>\<open>
        while True:
            transitive_target = target
            target = redirects.get(target)
            if target is None or target in seen:
                break
            seen.add(target)
  \<close>
  Its value is \<open>transitive_target\<close> at the \<^verbatim>\<open>break\<close>; \<open>None\<close> stands for a loop that
  never breaks.
\<close>

partial_function (option) walk :: "redirect_map \<Rightarrow> name set \<Rightarrow> name \<Rightarrow> name option" where
  "walk redirects seen target =
     (case map_of redirects target of
        None \<Rightarrow> Some target
      | Some target' \<Rightarrow>
          if target' \<in> seen then Some target
          else walk redirects (insert target' seen) target')"

text \<open>
  The closure loop \<^verbatim>\<open>for l, source in enumerate(redirects.keys())\<close>. In Python 2
  \<^verbatim>\<open>keys()\<close> is a snapshot list in the hash order of the dict, so the loop is modelled
  over any list \<open>ks\<close> of sources; the dict is updated in place and later walks read the
  updated entries.
\<close>

fun transitive_closure :: "name list \<Rightarrow> redirect_map \<Rightarrow> (error + redirect_map) option" where
  "transitive_closure [] redirects = Some (Inr redirects)"
| "transitive_closure (source # ks) redirects =
     (case map_of redirects source of
        None \<Rightarrow> Some (Inl KeyError)
      | Some target \<Rightarrow>
          (case walk redirects {source} target of
             None \<Rightarrow> None
           | Some transitive_target \<Rightarrow>
               transitive_closure ks (AList.update source transitive_target redirects)))"

declare walk.simps [code]

text \<open>\<^verbatim>\<open>d.keys()\<close>, here in the order of insertion; the statements on the closure
  loop hold for every order.\<close>

definition keys :: "('k \<times> 'v) list \<Rightarrow> 'k list" where
  "keys d = map fst d"

definition get_redirects :: "string list \<Rightarrow> (error + redirect_map) option" where
  "get_redirects redirects_file =
     (let redirects = parse_redirects redirects_file [] in
      transitive_closure (keys redirects) redirects)"

text \<open>The redirect relation of a map: one edge per entry that a lookup returns.\<close>

definition redirect_edges :: "redirect_map \<Rightarrow> (name \<times> name) set" where
  "redirect_edges redirects = {(k, v). map_of redirects k = Some v}"

subsection \<open>\<^verbatim>\<open>index\<close>\<close>

text \<open>\<^verbatim>\<open>k = redirects.get(k, k); return index_map.setdefault(k, len(index_map))\<close>:
  the returned id, and the index map as the call leaves it.\<close>

definition index :: "redirect_map \<Rightarrow> index_map \<Rightarrow> name \<Rightarrow> nat \<times> index_map" where
  "index redirects index_map k =
     (let k = (case map_of redirects k of None \<Rightarrow> k | Some v \<Rightarrow> v) in
      case map_of index_map k of
        Some i \<Rightarrow> (i, index_map)
      | None \<Rightarrow> (length index_map, AList.update k (length index_map) index_map))"

subsection \<open>Sparse matrices\<close>

text \<open>
  A scipy sparse matrix is its shape and, for each row, the stored (column, value)
  entries of that row: the \<^verbatim>\<open>rows\<close>/\<^verbatim>\<open>data\<close> lists of the LIL format, and the
  slices \<^verbatim>\<open>indices[indptr[i]:indptr[i+1]]\<close>, \<^verbatim>\<open>data[indptr[i]:indptr[i+1]]\<close> of the
  CSR format, so that \<^verbatim>\<open>tocsr()\<close> keeps the value. Cells without entry are 0.

  The 32-bit and 64-bit floating-point numbers of numpy are idealised by the real
  numbers: all arithmetic of \<^verbatim>\<open>centrality_scores\<close> below is exact. A value that the code
  computes differs from the one computed here by the rounding of its operations, and the
  convergence test can come out differently where the error is within rounding of the
  threshold. Statements on sums are therefore statements up to floating-point error
  about the code; the rounding of the initial guess is made explicit in a definition of
  its own.
\<close>

record sparse =
  shape :: "nat \<times> nat"
  rows :: "(nat \<times> real) list list"

definition lil_matrix :: "nat \<times> nat \<Rightarrow> sparse" where
  "lil_matrix s = \<lparr>shape = s, rows = replicate (fst s) []\<rparr>"

text \<open>\<^verbatim>\<open>X[i, j] = v\<close> on a LIL matrix, for a nonzero \<open>v\<close>: the entry of column \<open>j\<close>
  in row \<open>i\<close> is overwritten, or created; an index outside the shape raises.\<close>

definition lil_setitem :: "sparse \<Rightarrow> nat \<Rightarrow> nat \<Rightarrow> real \<Rightarrow> error + sparse" where
  "lil_setitem X i j v =
     (if i < fst (shape X) \<and> j < snd (shape X)
      then Inr (X\<lparr>rows := (rows X)[i := AList.update j v (rows X ! i)]\<rparr>)
      else Inl IndexError)"

text \<open>The value of cell \<open>(i, j)\<close>: the sum of the entries stored for it.\<close>

definition cell :: "sparse \<Rightarrow> nat \<Rightarrow> nat \<Rightarrow> real" where
  "cell X i j = sum_list (map snd (filter (\<lambda>e. fst e = j) (rows X ! i)))"

subsection \<open>\<^verbatim>\<open>get_adjacency_matrix\<close>\<close>

text \<open>
  The ingestion loop over \<^verbatim>\<open>enumerate(BZ2File(page_links_filename))\<close>, at line number
  \<open>l\<close>. A malformed line \<^verbatim>\<open>continue\<close>s, so the limit test is only reached after an
  edge was appended.
\<close>

fun ingest :: "redirect_map \<Rightarrow> int option \<Rightarrow> nat \<Rightarrow> string list \<Rightarrow> index_map \<Rightarrow>
    (nat \<times> nat) list \<Rightarrow> index_map \<times> (nat \<times> nat) list" where
  "ingest redirects limit l [] index_map links = (index_map, links)"
| "ingest redirects limit l (line # rest) index_map links =
     (let split = split line in
      if length split \<noteq> 4 then ingest redirects limit (l + 1) rest index_map links
      else
        (case index redirects index_map (short_name (split ! 0)) of (i, index_map1) \<Rightarrow>
         case index redirects index_map1 (short_name (split ! 2)) of (j, index_map2) \<Rightarrow>
           if (case limit of None \<Rightarrow> False | Some m \<Rightarrow> int l \<ge> m - 1)
           then (index_map2, links @ [(i, j)])
           else ingest redirects limit (l + 1) rest index_map2 (links @ [(i, j)])))"

text \<open>\<^verbatim>\<open>for i, j in links: X[i, j] = 1.0\<close>\<close>

fun set_links :: "(nat \<times> nat) list \<Rightarrow> sparse \<Rightarrow> error + sparse" where
  "set_links [] X = Inr X"
| "set_links ((i, j) # links) X =
     (case lil_setitem X i j 1 of Inl e \<Rightarrow> Inl e | Inr X' \<Rightarrow> set_links links X')"

definition get_adjacency_matrix ::
    "string list \<Rightarrow> string list \<Rightarrow> int option \<Rightarrow>
     (error + sparse \<times> redirect_map \<times> index_map) option" where
  "get_adjacency_matrix redirects_file page_links_file limit =
     (case get_redirects redirects_file of
        None \<Rightarrow> None
      | Some (Inl e) \<Rightarrow> Some (Inl e)
      | Some (Inr redirects) \<Rightarrow>
          (case ingest redirects limit 0 page_links_file [] [] of (index_map, links) \<Rightarrow>
           case set_links links (lil_matrix (length index_map, length index_map)) of
             Inl e \<Rightarrow> Some (Inl e)
           | Inr X \<Rightarrow> Some (Inr (X, redirects, index_map))))"

subsection \<open>\<^verbatim>\<open>centrality_scores\<close>\<close>

text \<open>
  Matrices are objects: a variable holds a reference into a store, and
  \<^verbatim>\<open>X.data[...] *= c\<close> changes the object that \<open>X\<close> refers to. The store is the
  list of the objects allocated so far, a reference is a position in it.
\<close>

type_synonym ref = nat

type_synonym store = "sparse list"

text \<open>\<^verbatim>\<open>X.copy()\<close>: a new object with the same contents.\<close>

definition copy :: "store \<Rightarrow> ref \<Rightarrow> ref \<times> store" where
  "copy h X = (length h, h @ [h ! X])"

text \<open>\<^verbatim>\<open>np.asarray(X.sum(axis=1)).ravel()\<close>: the sum of the stored values of each row.\<close>

definition sum_axis1 :: "sparse \<Rightarrow> real list" where
  "sum_axis1 X = map (\<lambda>row. sum_list (map snd row)) (rows X)"

text \<open>\<^verbatim>\<open>a.nonzero()[0]\<close>: the positions of the nonzero entries, ascending.\<close>

definition nonzero :: "real list \<Rightarrow> nat list" where
  "nonzero a = filter (\<lambda>i. a ! i \<noteq> 0) [0..<length a]"

text \<open>\<^verbatim>\<open>X.data[X.indptr[i]:X.indptr[i + 1]] *= c\<close>\<close>

definition scale_row :: "nat \<Rightarrow> real \<Rightarrow> sparse \<Rightarrow> sparse" where
  "scale_row i c X = X\<lparr>rows := (rows X)[i := map (\<lambda>(j, v). (j, v * c)) (rows X ! i)]\<rparr>"

text \<open>The normalisation loop \<^verbatim>\<open>for i in incoming_counts.nonzero()[0]\<close>, on the object
  that \<open>X\<close> refers to.\<close>

fun normalize :: "nat list \<Rightarrow> real list \<Rightarrow> ref \<Rightarrow> store \<Rightarrow> store" where
  "normalize [] incoming_counts X h = h"
| "normalize (i # is) incoming_counts X h =
     normalize is incoming_counts X (h[X := scale_row i (1 / incoming_counts ! i) (h ! X)])"

text \<open>\<^verbatim>\<open>np.where(X.sum(axis=1) == 0, 1.0 / n, 0)\<close>, for \<open>n \<noteq> 0\<close>.\<close>

definition dangle_vector :: "nat \<Rightarrow> sparse \<Rightarrow> real list" where
  "dangle_vector n X = map (\<lambda>s. if s = 0 then 1 / real n else 0) (sum_axis1 X)"

text \<open>\<^verbatim>\<open>scores * X\<close>, the product of a row vector with a sparse matrix: every stored
  entry \<open>(j, v)\<close> of row \<open>i\<close> adds \<open>scores[i] * v\<close> to component \<open>j\<close>.\<close>

definition vecmat :: "real list \<Rightarrow> sparse \<Rightarrow> real list" where
  "vecmat scores X =
     fold (\<lambda>(i, row) acc. fold (\<lambda>(j, v) acc. acc[j := acc ! j + scores ! i * v]) row acc)
       (zip [0..<length (rows X)] (rows X)) (replicate (snd (shape X)) 0)"

definition dot :: "real list \<Rightarrow> real list \<Rightarrow> real" where
  "dot a b = sum_list (map2 (*) a b)"

fun amax :: "real list \<Rightarrow> real" where
  "amax [] = 0"
| "amax (x # xs) = fold max xs x"

text \<open>
  The operations of numpy and scipy with their shape checks, which raise
  \<^verbatim>\<open>ValueError\<close>:
  \<^item> \<^verbatim>\<open>scores * X\<close> needs as many scores as \<open>X\<close> has rows;
  \<^item> \<^verbatim>\<open>np.dot(a, b)\<close> of two vectors needs equal lengths;
  \<^item> \<^verbatim>\<open>a - b\<close> needs equal lengths, or one operand of length 1, which is then taken
    for every component of the other (broadcasting);
  \<^item> \<^verbatim>\<open>a.max()\<close> needs a non-empty array.
\<close>

definition sparse_rmul :: "real list \<Rightarrow> sparse \<Rightarrow> error + real list" where
  "sparse_rmul scores X =
     (if length scores = fst (shape X) then Inr (vecmat scores X) else Inl ValueError)"

definition np_dot :: "real list \<Rightarrow> real list \<Rightarrow> error + real" where
  "np_dot a b = (if length a = length b then Inr (dot a b) else Inl ValueError)"

definition np_sub :: "real list \<Rightarrow> real list \<Rightarrow> error + real list" where
  "np_sub a b =
     (if length a = length b then Inr (map2 (-) a b)
      else if length a = 1 then Inr (map (\<lambda>y. hd a - y) b)
      else if length b = 1 then Inr (map (\<lambda>x. x - hd b) a)
      else Inl ValueError)"

definition np_max :: "real list \<Rightarrow> error + real" where
  "np_max a = (if a = [] then Inl ValueError else Inr (amax a))"

text \<open>
  One round of the loop body:
  \<^verbatim>\<open>
        scores = (alpha * (scores * X + np.dot(dangle, prev_scores))
                  + (1 - alpha) * prev_scores.sum() / n)
  \<close>
  where the two scalars are added to every component.
\<close>

definition update_scores ::
    "sparse \<Rightarrow> real list \<Rightarrow> real \<Rightarrow> nat \<Rightarrow> real list \<Rightarrow> error + real list" where
  "update_scores X dangle alpha n prev_scores =
     (case sparse_rmul prev_scores X of
        Inl e \<Rightarrow> Inl e
      | Inr sX \<Rightarrow>
          (case np_dot dangle prev_scores of
             Inl e \<Rightarrow> Inl e
           | Inr d \<Rightarrow>
               Inr (map (\<lambda>x. alpha * (x + d) + (1 - alpha) * sum_list prev_scores / real n) sX)))"

text \<open>
  The normalised \<open>l\<^sub>\<infinity>\<close> error \<open>err\<close> of the convergence test:
  \<^verbatim>\<open>
        scores_max = np.abs(scores).max()
        if scores_max == 0.0:
            scores_max = 1.0
        err = np.abs(scores - prev_scores).max() / scores_max
  \<close>
\<close>

definition iteration_error :: "real list \<Rightarrow> real list \<Rightarrow> error + real" where
  "iteration_error scores prev_scores =
     (case np_max (map abs scores) of
        Inl e \<Rightarrow> Inl e
      | Inr scores_max \<Rightarrow>
          let scores_max = (if scores_max = 0 then 1 else scores_max) in
          (case np_sub scores prev_scores of
             Inl e \<Rightarrow> Inl e
           | Inr diff \<Rightarrow>
               (case np_max (map abs diff) of
                  Inl e \<Rightarrow> Inl e
                | Inr m \<Rightarrow> Inr (m / scores_max))))"

text \<open>The loop \<^verbatim>\<open>for i in range(max_iter)\<close> with \<open>k\<close> rounds left; both
  \<^verbatim>\<open>return scores\<close> statements.\<close>

fun power_iteration ::
    "sparse \<Rightarrow> real list \<Rightarrow> real \<Rightarrow> nat \<Rightarrow> real \<Rightarrow> nat \<Rightarrow> real list \<Rightarrow> error + real list" where
  "power_iteration X dangle alpha n tol 0 scores = Inr scores"
| "power_iteration X dangle alpha n tol (Suc k) scores =
     (case update_scores X dangle alpha n scores of
        Inl e \<Rightarrow> Inl e
      | Inr scores' \<Rightarrow>
          (case iteration_error scores' scores of
             Inl e \<Rightarrow> Inl e
           | Inr err \<Rightarrow>
               if err < real n * tol then Inr scores'
               else power_iteration X dangle alpha n tol k scores'))"

text \<open>
  \<^verbatim>\<open>centrality_scores(X, alpha, max_iter, tol)\<close> on the store \<open>h\<close>: the result, and the
  store as the call leaves it. \<^verbatim>\<open>1.0 / n\<close> raises \<^verbatim>\<open>ZeroDivisionError\<close> for \<open>n = 0\<close>;
  \<^verbatim>\<open>range(max_iter)\<close> is empty for \<open>max_iter \<le> 0\<close>.
\<close>

definition centrality_scores ::
    "store \<Rightarrow> ref \<Rightarrow> real \<Rightarrow> int \<Rightarrow> real \<Rightarrow> (error + real list) \<times> store" where
  "centrality_scores h X alpha max_iter tol =
     (let n = fst (shape (h ! X)) in
      case copy h X of (X, h) \<Rightarrow>
        let incoming_counts = sum_axis1 (h ! X);
            h = normalize (nonzero incoming_counts) incoming_counts X h
        in if n = 0 then (Inl ZeroDivisionError, h)
           else
             let dangle = dangle_vector n (h ! X);
                 scores = replicate n (1 / real n)
             in (power_iteration (h ! X) dangle alpha n tol (nat max_iter) scores, h))"

subsection \<open>Predicates of the statements\<close>



text \<open>An index map whose ids are dense: names are distinct and the ids are
  \<open>0, 1, \<dots>, len - 1\<close> in the order of insertion.\<close>

definition dense_ids :: "index_map \<Rightarrow> bool" where
  "dense_ids index_map =
     (distinct (map fst index_map) \<and> map snd index_map = [0..<length index_map])"

text \<open>All recorded pairs lie below \<open>N\<close>.\<close>

definition links_below :: "nat \<Rightarrow> (nat \<times> nat) list \<Rightarrow> bool" where
  "links_below N links = list_all (\<lambda>(i, j). i < N \<and> j < N) links"

text \<open>Every stored entry is a unit weight, at most one per column of a row.\<close>

definition unit_rows :: "sparse \<Rightarrow> bool" where
  "unit_rows X = list_all (\<lambda>row. distinct (map fst row) \<and> list_all (\<lambda>e. snd e = 1) row) (rows X)"

text \<open>A square matrix of size \<open>n\<close> with its stored entries inside the shape and
  nonnegative: adjacency matrices are of this kind.\<close>

definition adjacency_wf :: "nat \<Rightarrow> sparse \<Rightarrow> bool" where
  "adjacency_wf n X =
     (shape X = (n, n) \<and> length (rows X) = n \<and>
      list_all (\<lambda>row. list_all (\<lambda>e. fst e < n \<and> 0 \<le> snd e) row) (rows X))"

text \<open>The working copy of \<^verbatim>\<open>centrality_scores\<close> after the normalisation loop.\<close>

definition normalized :: "store \<Rightarrow> ref \<Rightarrow> sparse" where
  "normalized h X =
     (case copy h X of (X, h) \<Rightarrow>
        let incoming_counts = sum_axis1 (h ! X)
        in normalize (nonzero incoming_counts) incoming_counts X h ! X)"

text \<open>The score vector after \<open>k\<close> rounds of the loop body, whatever the convergence test
  says.\<close>

fun rounds ::
    "sparse \<Rightarrow> real list \<Rightarrow> real \<Rightarrow> nat \<Rightarrow> nat \<Rightarrow> real list \<Rightarrow> error + real list" where
  "rounds X dangle alpha n 0 scores = Inr scores"
| "rounds X dangle alpha n (Suc k) scores =
     (case update_scores X dangle alpha n scores of
        Inl e \<Rightarrow> Inl e
      | Inr scores' \<Rightarrow> rounds X dangle alpha n k scores')"

text \<open>The value of \<open>update_scores\<close> where the shapes fit.\<close>

definition damped_update :: "sparse \<Rightarrow> real list \<Rightarrow> real \<Rightarrow> nat \<Rightarrow> real list \<Rightarrow> real list" where
  "damped_update X dangle alpha n prev_scores =
     map (\<lambda>x. alpha * (x + dot dangle prev_scores)
               + (1 - alpha) * sum_list prev_scores / real n)
       (vecmat prev_scores X)"

text \<open>The loop of \<open>power_iteration\<close> runs all its \<open>k\<close> rounds: no round raises, and in
  none of them the error, computed in exact arithmetic, falls below the threshold.\<close>

fun exhausts ::
    "sparse \<Rightarrow> real list \<Rightarrow> real \<Rightarrow> nat \<Rightarrow> real \<Rightarrow> nat \<Rightarrow> real list \<Rightarrow> bool" where
  "exhausts X dangle alpha n tol 0 scores = True"
| "exhausts X dangle alpha n tol (Suc k) scores =
     (case update_scores X dangle alpha n scores of
        Inl e \<Rightarrow> False
      | Inr scores' \<Rightarrow>
          (case iteration_error scores' scores of
             Inl e \<Rightarrow> False
           | Inr err \<Rightarrow> \<not> err < real n * tol \<and> exhausts X dangle alpha n tol k scores'))"

text \<open>A call of \<^verbatim>\<open>centrality_scores\<close> exhausts \<open>max_iter\<close>.\<close>

definition exhausts_max_iter :: "store \<Rightarrow> ref \<Rightarrow> real \<Rightarrow> int \<Rightarrow> real \<Rightarrow> bool" where
  "exhausts_max_iter h X alpha max_iter tol =
     (let n = fst (shape (h ! X)); Xn = normalized h X
      in 0 < n \<and>
         exhausts Xn (dangle_vector n Xn) alpha n tol (nat max_iter) (replicate n (1 / real n)))"

subsection \<open>The initial guess in 32-bit floating point\<close>





subsection \<open>Example inputs\<close>

text \<open>Lines of the DBpedia dumps: a resource URI in angle brackets, and a statement
  with its terminator and line end.\<close>

definition uri :: "string \<Rightarrow> string" where
  "uri a = ''<http://dbpedia.org/resource/'' @ a @ ''>''"

definition triple :: "string \<Rightarrow> string \<Rightarrow> string" where
  "triple a b = uri a @ '' <http://dbpedia.org/property/link> '' @ uri b @ '' .'' @ [CHR 0x0A]"

section \<open>Verification\<close>

subsection \<open>The chain walk\<close>

text \<open>The walk returns from every state: each round adds to \<open>seen\<close> a value of the
  map that was not in it. The result is reachable from the start, and its next hop is
  absent, or in the initial \<open>seen\<close>, or a name that leads to the result (as the names
  added to \<open>seen\<close> on the way do).\<close>

lemma walk_spec:
  "\<exists>r. walk d seen t = Some r \<and> (t, r) \<in> (redirect_edges d)\<^sup>* \<and>
       (\<forall>t''. map_of d r = Some t'' \<longrightarrow> t'' \<in> seen \<or> (t'', r) \<in> (redirect_edges d)\<^sup>*)"
proof (induction "card (snd ` set d - seen)" arbitrary: seen t rule: less_induct)
  case less
  show ?case
  proof (cases "map_of d t")
    case None
    then show ?thesis by (subst walk.simps) simp
  next
    case (Some t')
    show ?thesis
    proof (cases "t' \<in> seen")
      case True
      with Some show ?thesis by (subst walk.simps) simp
    next
      case False
      from Some have "(t, t') \<in> set d" by (rule map_of_SomeD)
      then have "t' \<in> snd ` set d - seen" using False by force
      then have "card (snd ` set d - insert t' seen) < card (snd ` set d - seen)"
        by (metis Diff_insert card_Diff1_less finite_Diff finite_imageI finite_set)
      from less[OF this, of t'] obtain r where
        r: "walk d (insert t' seen) t' = Some r" "(t', r) \<in> (redirect_edges d)\<^sup>*"
        "\<forall>t''. map_of d r = Some t'' \<longrightarrow> t'' \<in> insert t' seen \<or> (t'', r) \<in> (redirect_edges d)\<^sup>*"
        by blast
      have "(t, t') \<in> redirect_edges d" using Some by (simp add: redirect_edges_def)
      with r(2) have "(t, r) \<in> (redirect_edges d)\<^sup>*" by (meson converse_rtrancl_into_rtrancl)
      moreover have "walk d seen t = Some r" using Some False r(1) by (subst walk.simps) simp
      moreover have "\<forall>t''. map_of d r = Some t'' \<longrightarrow> t'' \<in> seen \<or> (t'', r) \<in> (redirect_edges d)\<^sup>*"
        using r(2,3) by blast
      ultimately show ?thesis by blast
    qed
  qed
qed

lemma walk_acyclic:
  assumes "acyclic (redirect_edges d)" and "\<forall>x\<in>seen. (x, t) \<in> (redirect_edges d)\<^sup>*"
  shows "\<exists>r. walk d seen t = Some r \<and> (t, r) \<in> (redirect_edges d)\<^sup>* \<and> map_of d r = None"
proof -
  from walk_spec[of d seen t] obtain r where
    r: "walk d seen t = Some r" "(t, r) \<in> (redirect_edges d)\<^sup>*"
    "\<forall>t''. map_of d r = Some t'' \<longrightarrow> t'' \<in> seen \<or> (t'', r) \<in> (redirect_edges d)\<^sup>*"
    by blast
  have "map_of d r = None"
  proof (cases "map_of d r")
    case None then show ?thesis .
  next
    case (Some t'')
    then have e: "(r, t'') \<in> redirect_edges d" by (simp add: redirect_edges_def)
    from r(3) Some have "t'' \<in> seen \<or> (t'', r) \<in> (redirect_edges d)\<^sup>*" by blast
    then have "(t'', r) \<in> (redirect_edges d)\<^sup>*"
      using assms(2) r(2) by (auto intro: rtrancl_trans)
    with e have "(t'', t'') \<in> (redirect_edges d)\<^sup>+" by (meson rtrancl_into_trancl1)
    with assms(1) show ?thesis by (simp add: acyclic_def)
  qed
  with r show ?thesis by blast
qed

subsection \<open>The closure loop\<close>

lemma redirect_edges_update:
  "redirect_edges (AList.update k v d) \<subseteq> insert (k, v) (redirect_edges d)"
  by (auto simp: redirect_edges_def AList.update_conv' split: if_splits)

lemma dom_map_of_update:
  "k \<in> dom (map_of d) \<Longrightarrow> dom (map_of (AList.update k v d)) = dom (map_of d)"
  by (auto simp: AList.update_conv')

lemma closure_total:
  "set ks \<subseteq> dom (map_of d) \<Longrightarrow>
   \<exists>c. transitive_closure ks d = Some (Inr c) \<and> dom (map_of c) = dom (map_of d)"
proof (induction ks arbitrary: d)
  case Nil
  then show ?case by simp
next
  case (Cons source ks)
  then obtain target where t: "map_of d source = Some target" by auto
  from walk_spec[of d "{source}" target] obtain r where r: "walk d {source} target = Some r"
    by blast
  let ?d' = "AList.update source r d"
  have dom: "dom (map_of ?d') = dom (map_of d)" using t by (intro dom_map_of_update) auto
  with Cons.prems have "set ks \<subseteq> dom (map_of ?d')" by simp
  from Cons.IH[OF this] dom t r show ?case by simp
qed

lemma closure_acyclic:
  assumes "acyclic (redirect_edges d0)"
  shows "dom (map_of d) = dom (map_of d0) \<Longrightarrow> redirect_edges d \<subseteq> (redirect_edges d0)\<^sup>+ \<Longrightarrow>
     set ks \<subseteq> dom (map_of d0) \<Longrightarrow>
     \<forall>k\<in>S. \<exists>v. map_of d k = Some v \<and> map_of d0 v = None \<Longrightarrow>
     \<exists>c. transitive_closure ks d = Some (Inr c) \<and> dom (map_of c) = dom (map_of d0) \<and>
         redirect_edges c \<subseteq> (redirect_edges d0)\<^sup>+ \<and>
         (\<forall>k\<in>S \<union> set ks. \<exists>v. map_of c k = Some v \<and> map_of d0 v = None)"
proof (induction ks arbitrary: d S)
  case Nil
  then show ?case by simp
next
  case (Cons source ks)
  let ?E = "redirect_edges d" and ?F = "redirect_edges d0"
  from Cons.prems(1,3) have "source \<in> dom (map_of d)" by simp
  then obtain target where t: "map_of d source = Some target" by blast
  have "acyclic (?F\<^sup>+)" using assms by (simp add: acyclic_def)
  then have ac: "acyclic ?E" using Cons.prems(2) by (rule acyclic_subset)
  have st: "(source, target) \<in> ?E" using t by (simp add: redirect_edges_def)
  then have "\<forall>x\<in>{source}. (x, target) \<in> ?E\<^sup>*" by auto
  from walk_acyclic[OF ac this] obtain r where
    r: "walk d {source} target = Some r" "(target, r) \<in> ?E\<^sup>*" "map_of d r = None" by blast
  from r(3) Cons.prems(1) have r0: "map_of d0 r = None" by (metis domIff)
  from st r(2) have "(source, r) \<in> ?E\<^sup>+" by (rule rtrancl_into_trancl2)
  then have "(source, r) \<in> (?F\<^sup>+)\<^sup>+" using Cons.prems(2) by (rule trancl_mono)
  then have sr: "(source, r) \<in> ?F\<^sup>+" by simp
  let ?d' = "AList.update source r d"
  have 1: "dom (map_of ?d') = dom (map_of d0)"
  proof -
    have "source \<in> dom (map_of d)" using t by blast
    then have "dom (map_of ?d') = dom (map_of d)" by (rule dom_map_of_update)
    with Cons.prems(1) show ?thesis by simp
  qed
  have 2: "redirect_edges ?d' \<subseteq> ?F\<^sup>+"
    using redirect_edges_update[of source r d] sr Cons.prems(2) by auto
  have 3: "set ks \<subseteq> dom (map_of d0)" using Cons.prems(3) by simp
  have 4: "\<forall>k\<in>insert source S. \<exists>v. map_of ?d' k = Some v \<and> map_of d0 v = None"
    using Cons.prems(4) r0 by (auto simp: AList.update_conv')
  from Cons.IH[OF 1 2 3 4] t r(1) show ?case by auto
qed

lemma keys_dom: "set (keys d) = dom (map_of d)"
  by (simp add: keys_def dom_map_of_conv_image_fst)

subsection \<open>Claims on \<^verbatim>\<open>get_redirects\<close>\<close>

text \<open>
  Claim C1. For a redirect map without cycles, the closure loop (over the keys in any
  order) returns a map with the same keys in which every key maps to a name that has no
  entry in the original map and that is reachable from the key along the original
  redirects: one lookup gives the final target.
\<close>

theorem closure_acyclic_canonical:
  assumes "acyclic (redirect_edges redirects)" and "set ks = dom (map_of redirects)"
  shows "\<exists>closed. transitive_closure ks redirects = Some (Inr closed) \<and>
           dom (map_of closed) = dom (map_of redirects) \<and>
           (\<forall>k v. map_of closed k = Some v \<longrightarrow>
                  map_of redirects v = None \<and> (k, v) \<in> (redirect_edges redirects)\<^sup>+)"
proof -
  have e: "\<forall>k\<in>{}. \<exists>v. map_of redirects k = Some v \<and> map_of redirects v = None" by simp
  have sub: "redirect_edges redirects \<subseteq> (redirect_edges redirects)\<^sup>+" by auto
  have ks: "set ks \<subseteq> dom (map_of redirects)" using assms(2) by simp
  from closure_acyclic[OF assms(1) refl sub ks e]
  obtain c where c: "transitive_closure ks redirects = Some (Inr c)"
    "dom (map_of c) = dom (map_of redirects)"
    "redirect_edges c \<subseteq> (redirect_edges redirects)\<^sup>+"
    "\<forall>k\<in>set ks. \<exists>v. map_of c k = Some v \<and> map_of redirects v = None"
    by auto
  have "map_of redirects v = None \<and> (k, v) \<in> (redirect_edges redirects)\<^sup>+"
    if kv: "map_of c k = Some v" for k v
  proof -
    from kv c(2) assms(2) have "k \<in> set ks" by auto
    with c(4) kv have "map_of redirects v = None" by auto
    moreover from kv c(3) have "(k, v) \<in> (redirect_edges redirects)\<^sup>+"
      by (auto simp: redirect_edges_def)
    ultimately show ?thesis ..
  qed
  with c(1,2) show ?thesis by blast
qed

text \<open>The chain \<open>A \<rightarrow> B \<rightarrow> C\<close>, closed with \<open>B\<close> visited first.\<close>

theorem closure_acyclic_canonical_witness:
  "acyclic (redirect_edges [(''A'', ''B''), (''B'', ''C'')]) \<and>
   set [''B'', ''A''] = dom (map_of [(''A'', ''B''), (''B'', ''C'')]) \<and>
   (\<exists>closed. transitive_closure [''B'', ''A''] [(''A'', ''B''), (''B'', ''C'')] = Some (Inr closed) \<and>
      dom (map_of closed) = dom (map_of [(''A'', ''B''), (''B'', ''C'')]) \<and>
      (\<forall>k v. map_of closed k = Some v \<longrightarrow>
          map_of [(''A'', ''B''), (''B'', ''C'')] v = None \<and>
          (k, v) \<in> (redirect_edges [(''A'', ''B''), (''B'', ''C'')])\<^sup>+)) \<and>
   transitive_closure [''B'', ''A''] [(''A'', ''B''), (''B'', ''C'')]
     = Some (Inr [(''A'', ''C''), (''B'', ''C'')])"
proof -
  let ?d = "[(''A'', ''B''), (''B'', ''C'')]"
  let ?f = "\<lambda>s. if s = ''A'' then 2 else if s = ''B'' then 1 else (0::nat)"
  have "redirect_edges ?d \<subseteq> (measure ?f)\<inverse>"
    by (auto simp: redirect_edges_def split: if_splits)
  moreover have "acyclic ((measure ?f)\<inverse>)"
    using wf_measure[of ?f] by (simp add: wf_acyclic)
  ultimately have ac: "acyclic (redirect_edges ?d)" by (rule acyclic_subset[rotated])
  have ks: "set [''B'', ''A''] = dom (map_of ?d)" by auto
  note th = closure_acyclic_canonical[OF ac ks]
  have ev: "transitive_closure [''B'', ''A''] ?d = Some (Inr [(''A'', ''C''), (''B'', ''C'')])"
    by code_simp
  from ac ks th ev show ?thesis by (iprover intro: conjI)
qed












subsection \<open>Ids and recorded links\<close>

lemma update_absent: "map_of al k = None \<Longrightarrow> AList.update k v al = al @ [(k, v)]"
  by (induction al) (auto split: if_splits)

lemma dense_ids_lookup:
  assumes "dense_ids im" and "map_of im k = Some i"
  shows "i < length im"
proof -
  from assms(2) have "i \<in> set (map snd im)" by (force dest: map_of_SomeD)
  with assms(1) show ?thesis by (simp add: dense_ids_def)
qed

lemma dense_ids_append:
  assumes "dense_ids im" and "map_of im k = None"
  shows "dense_ids (im @ [(k, length im)])"
proof -
  from assms(2) have "k \<notin> fst ` set im" by (simp add: map_of_eq_None_iff)
  with assms(1) show ?thesis by (simp add: dense_ids_def)
qed

lemma index_dense:
  assumes "dense_ids im" and "index r im k = (i, im')"
  shows "dense_ids im' \<and> i < length im' \<and> length im \<le> length im' \<and>
         (\<forall>k' i'. map_of im k' = Some i' \<longrightarrow> map_of im' k' = Some i')"
proof -
  define k1 where "k1 = (case map_of r k of None \<Rightarrow> k | Some v \<Rightarrow> v)"
  show ?thesis
  proof (cases "map_of im k1")
    case None
    with assms(2) have eq: "i = length im" "im' = im @ [(k1, length im)]"
      by (auto simp add: index_def k1_def[symmetric] update_absent)
    have "map_of im' k' = Some i'" if "map_of im k' = Some i'" for k' i'
      using that by (simp add: eq map_of_append)
    with dense_ids_append[OF assms(1) None] eq show ?thesis by simp
  next
    case (Some i0)
    with assms(2) have "i = i0" "im' = im" by (simp_all add: index_def k1_def[symmetric])
    with assms(1) Some dense_ids_lookup[OF assms(1) Some] show ?thesis by simp
  qed
qed

lemma links_below_mono: "links_below N links \<Longrightarrow> N \<le> M \<Longrightarrow> links_below M links"
  by (auto simp: links_below_def list_all_iff)

lemma ingest_inv:
  "dense_ids im \<Longrightarrow> links_below (length im) links \<Longrightarrow>
   ingest r limit l file im links = (im', links') \<Longrightarrow>
   dense_ids im' \<and> links_below (length im') links' \<and> length im \<le> length im' \<and>
   (\<forall>k i. map_of im k = Some i \<longrightarrow> map_of im' k = Some i)"
proof (induction "file" arbitrary: l im links)
  case Nil
  then show ?case by simp
next
  case (Cons line rest)
  show ?case
  proof (cases "length (split line) \<noteq> 4")
    case True
    with Cons.prems(3) have "ingest r limit (l + 1) rest im links = (im', links')" by simp
    from Cons.IH[OF Cons.prems(1,2) this] show ?thesis .
  next
    case False
    obtain i im1 where i: "index r im (short_name (split line ! 0)) = (i, im1)" by force
    obtain j im2 where j: "index r im1 (short_name (split line ! 2)) = (j, im2)" by force
    from index_dense[OF Cons.prems(1) i] have
      1: "dense_ids im1" "i < length im1" "length im \<le> length im1"
         "\<forall>k' i'. map_of im k' = Some i' \<longrightarrow> map_of im1 k' = Some i'" by auto
    from index_dense[OF 1(1) j] have
      2: "dense_ids im2" "j < length im2" "length im1 \<le> length im2"
         "\<forall>k' i'. map_of im1 k' = Some i' \<longrightarrow> map_of im2 k' = Some i'" by auto
    have lb: "links_below (length im2) (links @ [(i, j)])"
      using links_below_mono[OF Cons.prems(2), of "length im2"] 1(2,3) 2(2,3)
      by (simp add: links_below_def)
    show ?thesis
    proof (cases "case limit of None \<Rightarrow> False | Some m \<Rightarrow> int l \<ge> m - 1")
      case True
      with False i j Cons.prems(3) have "im' = im2" "links' = links @ [(i, j)]"
        by (simp_all add: Let_def)
      with lb 1 2 show ?thesis by auto
    next
      case nb: False
      with False i j Cons.prems(3) have
        "ingest r limit (l + 1) rest im2 (links @ [(i, j)]) = (im', links')"
        by (simp add: Let_def)
      from Cons.IH[OF 2(1) lb this] 1 2 show ?thesis by auto
    qed
  qed
qed

subsection \<open>The limit of the ingestion loop\<close>

lemma ingest_prefix:
  "\<exists>n\<le>length file. ingest r limit l file im links = ingest r None l (take n file) im links"
proof (induction "file" arbitrary: l im links)
  case Nil
  then show ?case by simp
next
  case (Cons line rest)
  show ?case
  proof (cases "length (split line) \<noteq> 4")
    case True
    from Cons.IH[of "l + 1" im links] obtain n where
      "n \<le> length rest"
      "ingest r limit (l + 1) rest im links = ingest r None (l + 1) (take n rest) im links"
      by blast
    with True have "Suc n \<le> length (line # rest) \<and>
      ingest r limit l (line # rest) im links = ingest r None l (take (Suc n) (line # rest)) im links"
      by simp
    then show ?thesis by blast
  next
    case False
    obtain i im1 where i: "index r im (short_name (split line ! 0)) = (i, im1)" by force
    obtain j im2 where j: "index r im1 (short_name (split line ! 2)) = (j, im2)" by force
    show ?thesis
    proof (cases "case limit of None \<Rightarrow> False | Some m \<Rightarrow> int l \<ge> m - 1")
      case True
      with False i j have "Suc 0 \<le> length (line # rest) \<and>
        ingest r limit l (line # rest) im links
          = ingest r None l (take (Suc 0) (line # rest)) im links"
        by (simp add: Let_def)
      then show ?thesis by blast
    next
      case nb: False
      from Cons.IH[of "l + 1" im2 "links @ [(i, j)]"] obtain n where
        "n \<le> length rest"
        "ingest r limit (l + 1) rest im2 (links @ [(i, j)])
           = ingest r None (l + 1) (take n rest) im2 (links @ [(i, j)])"
        by blast
      with False nb i j have "Suc n \<le> length (line # rest) \<and>
        ingest r limit l (line # rest) im links
          = ingest r None l (take (Suc n) (line # rest)) im links"
        by (simp add: Let_def)
      then show ?thesis by blast
    qed
  qed
qed

lemma ingest_bound:
  "length (snd (ingest r (Some m) l file im links))
     \<le> length links + max 1 (nat (m - int l))"
proof (induction "file" arbitrary: l im links)
  case Nil
  then show ?case by simp
next
  case (Cons line rest)
  show ?case
  proof (cases "length (split line) \<noteq> 4")
    case True
    have "length (snd (ingest r (Some m) (l + 1) rest im links))
            \<le> length links + max 1 (nat (m - int (l + 1)))" by (rule Cons.IH)
    also have "\<dots> \<le> length links + max 1 (nat (m - int l))" by simp
    finally show ?thesis using True by simp
  next
    case False
    obtain i im1 where i: "index r im (short_name (split line ! 0)) = (i, im1)" by force
    obtain j im2 where j: "index r im1 (short_name (split line ! 2)) = (j, im2)" by force
    show ?thesis
    proof (cases "int l \<ge> m - 1")
      case True
      with False i j show ?thesis by (simp add: Let_def)
    next
      case nb: False
      have "length (snd (ingest r (Some m) (l + 1) rest im2 (links @ [(i, j)])))
              \<le> length (links @ [(i, j)]) + max 1 (nat (m - int (l + 1)))" by (rule Cons.IH)
      also have "\<dots> \<le> length links + max 1 (nat (m - int l))" using nb by simp
      finally show ?thesis using False nb i j by (simp add: Let_def)
    qed
  qed
qed

subsection \<open>Cells of the built matrix\<close>

lemma set_update_subset: "set (AList.update k v al) \<subseteq> insert (k, v) (set al)"
  by (induction al) auto

lemma unit_row_update:
  assumes "distinct (map fst row)" and "list_all (\<lambda>e. snd e = 1) row"
  shows "distinct (map fst (AList.update j 1 row)) \<and> list_all (\<lambda>e. snd e = 1) (AList.update j 1 row)"
  using assms set_update_subset[of j 1 row]
  by (auto simp: list_all_iff AList.distinct_update)

lemma set_links_cells:
  "shape X = (N, N) \<Longrightarrow> length (rows X) = N \<Longrightarrow> links_below N links \<Longrightarrow> unit_rows X \<Longrightarrow>
   \<exists>X'. set_links links X = Inr X' \<and> shape X' = (N, N) \<and> length (rows X') = N \<and> unit_rows X' \<and>
        (\<forall>i<N. fst ` set (rows X' ! i) = fst ` set (rows X ! i) \<union> {j. (i, j) \<in> set links})"
proof (induction links arbitrary: X)
  case Nil
  then show ?case by simp
next
  case (Cons p links)
  obtain i j where p: "p = (i, j)" by force
  from Cons.prems(3) have ij: "i < N" "j < N" and lb: "links_below N links"
    by (simp_all add: p links_below_def)
  let ?row = "AList.update j 1 (rows X ! i)"
  let ?X1 = "X\<lparr>rows := (rows X)[i := ?row]\<rparr>"
  have s1: "lil_setitem X i j 1 = Inr ?X1" using ij Cons.prems(1) by (simp add: lil_setitem_def)
  have "rows X ! i \<in> set (rows X)" using ij Cons.prems(2) by simp
  with Cons.prems(4) have "distinct (map fst (rows X ! i))" "list_all (\<lambda>e. snd e = 1) (rows X ! i)"
    by (simp_all add: unit_rows_def list_all_iff)
  from unit_row_update[OF this] have "unit_rows ?X1"
    using Cons.prems(4) set_update_subset_insert[of "rows X" i ?row]
    by (auto simp: unit_rows_def list_all_iff)
  from Cons.IH[of ?X1, OF _ _ lb this] Cons.prems(1,2) obtain X' where
    X': "set_links links ?X1 = Inr X'" "shape X' = (N, N)" "length (rows X') = N" "unit_rows X'"
      "\<forall>i'<N. fst ` set (rows X' ! i') = fst ` set (rows ?X1 ! i') \<union> {j. (i', j) \<in> set links}"
    by auto
  have "fst ` set (rows X' ! i') = fst ` set (rows X ! i') \<union> {j. (i', j) \<in> set (p # links)}"
    if "i' < N" for i'
  proof (cases "i' = i")
    case True
    with X'(5) that Cons.prems(2) show ?thesis by (auto simp: p AList.dom_update)
  next
    case False
    with X'(5) that Cons.prems(2) show ?thesis by (auto simp: p)
  qed
  with X' s1 show ?case by (simp add: p)
qed

lemma unit_row_cell:
  "distinct (map fst row) \<Longrightarrow> list_all (\<lambda>e. snd e = 1) row \<Longrightarrow>
   sum_list (map snd (filter (\<lambda>e. fst e = j) row)) = (if j \<in> fst ` set row then 1 else (0::real))"
proof (induction row)
  case Nil
  then show ?case by simp
next
  case (Cons e row)
  then show ?case by (cases "fst e = j") (auto simp: image_iff)
qed

lemma lil_matrix_unit: "unit_rows (lil_matrix (N, N))"
  by (simp add: unit_rows_def lil_matrix_def list_all_iff)

lemma build_cells:
  assumes "links_below N links"
  shows "\<exists>X. set_links links (lil_matrix (N, N)) = Inr X \<and> shape X = (N, N) \<and>
             length (rows X) = N \<and> unit_rows X \<and>
             (\<forall>i<N. \<forall>j. cell X i j = (if (i, j) \<in> set links then 1 else 0))"
proof -
  have "shape (lil_matrix (N, N)) = (N, N)" "length (rows (lil_matrix (N, N))) = N"
    by (simp_all add: lil_matrix_def)
  from set_links_cells[OF this assms lil_matrix_unit] obtain X where
    X: "set_links links (lil_matrix (N, N)) = Inr X" "shape X = (N, N)" "length (rows X) = N"
       "unit_rows X"
       "\<forall>i<N. fst ` set (rows X ! i) = fst ` set (rows (lil_matrix (N, N)) ! i) \<union> {j. (i, j) \<in> set links}"
    by blast
  have "cell X i j = (if (i, j) \<in> set links then 1 else 0)" if "i < N" for i j
  proof -
    from that X(3) have "rows X ! i \<in> set (rows X)" by simp
    with X(4) have "distinct (map fst (rows X ! i))" "list_all (\<lambda>e. snd e = 1) (rows X ! i)"
      by (simp_all add: unit_rows_def list_all_iff)
    from unit_row_cell[OF this, of j] X(5) that show ?thesis
      by (simp add: cell_def lil_matrix_def)
  qed
  with X show ?thesis by blast
qed

subsection \<open>Claims on \<^verbatim>\<open>get_adjacency_matrix\<close>\<close>

lemma dense_ids_range: "dense_ids im \<Longrightarrow> snd ` set im = {0..<length im}"
proof -
  assume "dense_ids im"
  then have "set (map snd im) = set [0..<length im]" by (simp add: dense_ids_def)
  then show ?thesis by simp
qed

lemma get_redirects_total:
  "\<exists>closed. get_redirects redirects_file = Some (Inr closed) \<and>
      dom (map_of closed) = dom (map_of (parse_redirects redirects_file []))"
proof -
  have "set (keys d) \<subseteq> dom (map_of d)" for d :: redirect_map by (simp add: keys_dom)
  from closure_total[OF this] show ?thesis by (simp add: get_redirects_def Let_def)
qed

text \<open>
  Claim C6. With a positive limit \<open>m\<close> the ingestion loop records at most \<open>m\<close> links,
  and what it records (links and index map) is what the loop without limit records on a
  prefix of the file, malformed lines included.
\<close>

theorem ingest_limit_prefix:
  assumes "0 < m"
  shows "length (snd (ingest redirects (Some m) 0 page_links_file [] [])) \<le> nat m \<and>
         (\<exists>n\<le>length page_links_file.
            ingest redirects (Some m) 0 page_links_file [] []
              = ingest redirects None 0 (take n page_links_file) [] [])"
proof -
  have "length (snd (ingest redirects (Some m) 0 page_links_file [] []))
          \<le> length ([] :: (nat \<times> nat) list) + max 1 (nat (m - int 0))"
    by (rule ingest_bound)
  also have "\<dots> = nat m" using assms by simp
  finally show ?thesis using ingest_prefix[of page_links_file redirects "Some m" 0 "[]" "[]"]
    by blast
qed

text \<open>A malformed first line, limit 1: the loop stops after the second line.\<close>

theorem ingest_limit_prefix_witness:
  "(0::int) < 1 \<and>
   (length (snd (ingest [] (Some 1) 0 [''malformed'', triple ''A'' ''X'', triple ''B'' ''Y''] [] []))
      \<le> nat 1 \<and>
    (\<exists>n\<le>length [''malformed'', triple ''A'' ''X'', triple ''B'' ''Y''].
       ingest [] (Some 1) 0 [''malformed'', triple ''A'' ''X'', triple ''B'' ''Y''] [] []
         = ingest [] None 0 (take n [''malformed'', triple ''A'' ''X'', triple ''B'' ''Y'']) [] [])) \<and>
   ingest [] (Some 1) 0 [''malformed'', triple ''A'' ''X'', triple ''B'' ''Y''] [] []
     = ([(''A'', 0), (''X'', 1)], [(0, 1)]) \<and>
   ingest [] None 0 (take 2 [''malformed'', triple ''A'' ''X'', triple ''B'' ''Y'']) [] []
     = ([(''A'', 0), (''X'', 1)], [(0, 1)])"
proof -
  have m: "(0::int) < 1" by simp
  note th = ingest_limit_prefix[OF m, of "[]" "[''malformed'', triple ''A'' ''X'', triple ''B'' ''Y'']"]
  have e1: "ingest [] (Some 1) 0 [''malformed'', triple ''A'' ''X'', triple ''B'' ''Y''] [] []
     = ([(''A'', 0), (''X'', 1)], [(0, 1)])" by code_simp
  have e2: "ingest [] None 0 (take 2 [''malformed'', triple ''A'' ''X'', triple ''B'' ''Y'']) [] []
     = ([(''A'', 0), (''X'', 1)], [(0, 1)])" by code_simp
  from m th e1 e2 show ?thesis by (iprover intro: conjI)
qed

text \<open>
  Claim C7. \<^verbatim>\<open>get_adjacency_matrix\<close> returns on every input a matrix whose cell
  \<open>(i, j)\<close> is 1 if the pair \<open>(i, j)\<close> was recorded at least once and 0 otherwise: each
  stored entry is a unit weight and a row has at most one entry per column, so repeated
  pairs are not accumulated.
\<close>

theorem adjacency_unit_cells:
  "\<exists>X redirects index_map links.
     get_adjacency_matrix redirects_file page_links_file limit = Some (Inr (X, redirects, index_map)) \<and>
     get_redirects redirects_file = Some (Inr redirects) \<and>
     ingest redirects limit 0 page_links_file [] [] = (index_map, links) \<and>
     shape X = (length index_map, length index_map) \<and> unit_rows X \<and>
     (\<forall>i<length index_map. \<forall>j. cell X i j = (if (i, j) \<in> set links then 1 else 0))"
proof -
  from get_redirects_total[of redirects_file] obtain redirects where
    r: "get_redirects redirects_file = Some (Inr redirects)" by blast
  obtain index_map links where
    i: "ingest redirects limit 0 page_links_file [] [] = (index_map, links)" by force
  have "dense_ids []" "links_below (length ([] :: index_map)) []"
    by (simp_all add: dense_ids_def links_below_def)
  from ingest_inv[OF this i] have "links_below (length index_map) links" by simp
  from build_cells[OF this] obtain X where
    X: "set_links links (lil_matrix (length index_map, length index_map)) = Inr X"
       "shape X = (length index_map, length index_map)" "unit_rows X"
       "\<forall>i<length index_map. \<forall>j. cell X i j = (if (i, j) \<in> set links then 1 else 0)"
    by blast
  from r i X(1) have
    "get_adjacency_matrix redirects_file page_links_file limit = Some (Inr (X, redirects, index_map))"
    by (simp add: get_adjacency_matrix_def)
  with r i X show ?thesis by blast
qed

text \<open>Redirects \<open>A \<rightarrow> B \<rightarrow> C\<close> and links \<open>A \<rightarrow> X\<close>, \<open>B \<rightarrow> X\<close>, \<open>C \<rightarrow> Y\<close>: the first two
  links resolve to the same pair and give one cell of weight 1.\<close>

theorem adjacency_unit_cells_witness:
  "(\<exists>X redirects index_map links.
     get_adjacency_matrix [triple ''A'' ''B'', triple ''B'' ''C'']
         [triple ''A'' ''X'', triple ''B'' ''X'', triple ''C'' ''Y''] None
       = Some (Inr (X, redirects, index_map)) \<and>
     get_redirects [triple ''A'' ''B'', triple ''B'' ''C''] = Some (Inr redirects) \<and>
     ingest redirects None 0 [triple ''A'' ''X'', triple ''B'' ''X'', triple ''C'' ''Y''] [] []
       = (index_map, links) \<and>
     shape X = (length index_map, length index_map) \<and> unit_rows X \<and>
     (\<forall>i<length index_map. \<forall>j. cell X i j = (if (i, j) \<in> set links then 1 else 0))) \<and>
   get_adjacency_matrix [triple ''A'' ''B'', triple ''B'' ''C'']
       [triple ''A'' ''X'', triple ''B'' ''X'', triple ''C'' ''Y''] None
     = Some (Inr (\<lparr>shape = (3, 3), rows = [[(1, 1), (2, 1)], [], []]\<rparr>,
                  [(''A'', ''C''), (''B'', ''C'')],
                  [(''C'', 0), (''X'', 1), (''Y'', 2)])) \<and>
   ingest [(''A'', ''C''), (''B'', ''C'')] None 0
       [triple ''A'' ''X'', triple ''B'' ''X'', triple ''C'' ''Y''] [] []
     = ([(''C'', 0), (''X'', 1), (''Y'', 2)], [(0, 1), (0, 1), (0, 2)]) \<and>
   cell \<lparr>shape = (3, 3), rows = [[(1, 1), (2, 1)], [], []]\<rparr> 0 1 = 1"
proof -
  note th = adjacency_unit_cells[of "[triple ''A'' ''B'', triple ''B'' ''C'']"
      "[triple ''A'' ''X'', triple ''B'' ''X'', triple ''C'' ''Y'']" None]
  have e1: "get_adjacency_matrix [triple ''A'' ''B'', triple ''B'' ''C'']
       [triple ''A'' ''X'', triple ''B'' ''X'', triple ''C'' ''Y''] None
     = Some (Inr (\<lparr>shape = (3, 3), rows = [[(1, 1), (2, 1)], [], []]\<rparr>,
                  [(''A'', ''C''), (''B'', ''C'')],
                  [(''C'', 0), (''X'', 1), (''Y'', 2)]))" by code_simp
  have e2: "ingest [(''A'', ''C''), (''B'', ''C'')] None 0
       [triple ''A'' ''X'', triple ''B'' ''X'', triple ''C'' ''Y''] [] []
     = ([(''C'', 0), (''X'', 1), (''Y'', 2)], [(0, 1), (0, 1), (0, 2)])" by code_simp
  have e3: "cell \<lparr>shape = (3, 3), rows = [[(1, 1), (2, 1)], [], []]\<rparr> 0 1 = 1" by code_simp
  from th e1 e2 e3 show ?thesis by (iprover intro: conjI)
qed

text \<open>
  Claim C10. From every loop state whose index map has dense ids and whose recorded
  pairs lie below its size (the empty initial state is one), the ingestion loop ends in
  such a state: the ids are exactly \<open>0, \<dots>, len - 1\<close>, names keep their ids, every
  recorded pair lies below the final size, and the assignments into the matrix of that
  size raise no \<open>IndexError\<close>.
\<close>

theorem index_ids_dense:
  assumes "dense_ids index_map" and "links_below (length index_map) links"
    and "ingest redirects limit l page_links_file index_map links = (index_map', links')"
  shows "dense_ids index_map' \<and> snd ` set index_map' = {0..<length index_map'} \<and>
         links_below (length index_map') links' \<and>
         (\<forall>k i. map_of index_map k = Some i \<longrightarrow> map_of index_map' k = Some i) \<and>
         (\<exists>X. set_links links' (lil_matrix (length index_map', length index_map')) = Inr X)"
proof -
  from ingest_inv[OF assms] have
    inv: "dense_ids index_map'" "links_below (length index_map') links'"
      "\<forall>k i. map_of index_map k = Some i \<longrightarrow> map_of index_map' k = Some i" by auto
  from build_cells[OF inv(2)] dense_ids_range[OF inv(1)] inv show ?thesis by blast
qed

text \<open>A run from the initial state, with a redirect and a malformed line.\<close>

theorem index_ids_dense_witness:
  "dense_ids [] \<and> links_below (length ([] :: index_map)) [] \<and>
   ingest [(''A'', ''C'')] None 0 [triple ''A'' ''X'', ''malformed'', triple ''C'' ''X''] [] []
     = ([(''C'', 0), (''X'', 1)], [(0, 1), (0, 1)]) \<and>
   dense_ids [(''C'', 0), (''X'', 1)] \<and>
   snd ` set [(''C'', 0::nat), (''X'', 1)] = {0..<length [(''C'', 0::nat), (''X'', 1)]} \<and>
   links_below (length [(''C'', 0::nat), (''X'', 1)]) [(0, 1), (0, 1)] \<and>
   (\<exists>X. set_links [(0, 1), (0, 1)]
           (lil_matrix (length [(''C'', 0::nat), (''X'', 1)], length [(''C'', 0::nat), (''X'', 1)]))
         = Inr X)"
proof -
  have d: "dense_ids []" by (simp add: dense_ids_def)
  have b: "links_below (length ([] :: index_map)) []" by (simp add: links_below_def)
  have e: "ingest [(''A'', ''C'')] None 0 [triple ''A'' ''X'', ''malformed'', triple ''C'' ''X''] [] []
     = ([(''C'', 0), (''X'', 1)], [(0, 1), (0, 1)])" by code_simp
  note th = index_ids_dense[OF d b e]
  from d b e th show ?thesis by (iprover intro: conjI elim: conjE)
qed

subsection \<open>The store and the normalisation loop\<close>

lemma normalize_frame:
  "length (normalize is c r h) = length h \<and> take r (normalize is c r h) = take r h"
  by (induction "is" arbitrary: h) simp_all

lemma centrality_scores_store:
  "snd (centrality_scores h X alpha max_iter tol)
     = normalize (nonzero (sum_axis1 (h ! X))) (sum_axis1 (h ! X)) (length h) (h @ [h ! X])"
  by (simp add: centrality_scores_def copy_def Let_def)

lemma centrality_scores_result:
  "fst (centrality_scores h X alpha max_iter tol)
     = (let n = fst (shape (h ! X)); Xn = normalized h X in
        if n = 0 then Inl ZeroDivisionError
        else power_iteration Xn (dangle_vector n Xn) alpha n tol (nat max_iter)
               (replicate n (1 / real n)))"
  by (simp add: centrality_scores_def normalized_def copy_def Let_def)

lemma normalize_rows:
  "r < length h \<Longrightarrow> distinct is \<Longrightarrow>
   shape (normalize is c r h ! r) = shape (h ! r) \<and>
   length (rows (normalize is c r h ! r)) = length (rows (h ! r)) \<and>
   (\<forall>i<length (rows (h ! r)).
      rows (normalize is c r h ! r) ! i =
        (if i \<in> set is then map (\<lambda>(j, v). (j, v * (1 / c ! i))) (rows (h ! r) ! i)
         else rows (h ! r) ! i))"
proof (induction "is" arbitrary: h)
  case Nil
  then show ?case by simp
next
  case (Cons i "is")
  define X1 where "X1 = scale_row i (1 / c ! i) (h ! r)"
  let ?h1 = "h[r := X1]"
  have r1: "r < length ?h1" using Cons.prems(1) by simp
  have d: "distinct is" and ni: "i \<notin> set is" using Cons.prems(2) by simp_all
  have h1: "?h1 ! r = X1" using Cons.prems(1) by simp
  have X1: "shape X1 = shape (h ! r)" "length (rows X1) = length (rows (h ! r))"
    by (simp_all add: X1_def scale_row_def)
  have X1r: "rows X1 ! k =
       (if k = i then map (\<lambda>(j, v). (j, v * (1 / c ! i))) (rows (h ! r) ! i) else rows (h ! r) ! k)"
    if "k < length (rows (h ! r))" for k
    using that by (simp add: X1_def scale_row_def nth_list_update)
  have step: "normalize (i # is) c r h = normalize is c r ?h1" by (simp add: X1_def)
  from Cons.IH[OF r1 d] have
    IH: "shape (normalize is c r ?h1 ! r) = shape X1"
        "length (rows (normalize is c r ?h1 ! r)) = length (rows X1)"
        "\<And>k. k < length (rows X1) \<Longrightarrow> rows (normalize is c r ?h1 ! r) ! k =
           (if k \<in> set is then map (\<lambda>(j, v). (j, v * (1 / c ! k))) (rows X1 ! k)
            else rows X1 ! k)"
    unfolding h1 by auto
  have "rows (normalize is c r ?h1 ! r) ! k =
        (if k \<in> set (i # is) then map (\<lambda>(j, v). (j, v * (1 / c ! k))) (rows (h ! r) ! k)
         else rows (h ! r) ! k)" if "k < length (rows (h ! r))" for k
    using that IH(3)[of k] X1(2) X1r[of k] ni by auto
  with IH(1,2) X1 show ?case unfolding step by simp
qed

lemma set_nonzero: "set (nonzero a) = {i. i < length a \<and> a ! i \<noteq> 0}"
  by (auto simp: nonzero_def)

lemma normalized_rows:
  "shape (normalized h X) = shape (h ! X) \<and>
   length (rows (normalized h X)) = length (rows (h ! X)) \<and>
   (\<forall>i<length (rows (h ! X)).
      rows (normalized h X) ! i =
        (if sum_axis1 (h ! X) ! i \<noteq> 0
         then map (\<lambda>(j, v). (j, v * (1 / sum_axis1 (h ! X) ! i))) (rows (h ! X) ! i)
         else rows (h ! X) ! i))"
proof -
  let ?c = "sum_axis1 (h ! X)"
  have "length h < length (h @ [h ! X])" by simp
  moreover have "distinct (nonzero ?c)" by (simp add: nonzero_def)
  ultimately show ?thesis
    using normalize_rows[of "length h" "h @ [h ! X]" "nonzero ?c" ?c]
    by (simp add: normalized_def copy_def Let_def set_nonzero sum_axis1_def)
qed

subsection \<open>Row normalisation\<close>

lemma sum_scaled_row:
  "sum_list (map snd (map (\<lambda>(j, v). (j, v * c)) row)) = sum_list (map snd row) * (c::real)"
  by (induction row) (auto simp: algebra_simps)

lemma wf_row:
  assumes "adjacency_wf n X" and "i < n"
  shows "\<forall>e\<in>set (rows X ! i). fst e < n \<and> 0 \<le> snd e"
proof -
  from assms have "rows X ! i \<in> set (rows X)" by (simp add: adjacency_wf_def)
  with assms(1) show ?thesis by (simp add: adjacency_wf_def list_all_iff)
qed

lemma wf_row_sum:
  assumes "adjacency_wf n X" and "i < n"
  shows "sum_axis1 X ! i = sum_list (map snd (rows X ! i))" and "0 \<le> sum_axis1 X ! i"
proof -
  from assms show 1: "sum_axis1 X ! i = sum_list (map snd (rows X ! i))"
    by (simp add: sum_axis1_def adjacency_wf_def)
  from wf_row[OF assms] have "\<forall>x\<in>set (map snd (rows X ! i)). 0 \<le> x" by simp
  then have "0 \<le> sum_list (map snd (rows X ! i))" by (intro sum_list_nonneg) blast
  with 1 show "0 \<le> sum_axis1 X ! i" by simp
qed

lemma normalized_wf:
  assumes "adjacency_wf n (h ! X)"
  shows "adjacency_wf n (normalized h X)"
    and "\<forall>i<n. sum_axis1 (normalized h X) ! i = (if sum_axis1 (h ! X) ! i = 0 then 0 else 1)"
proof -
  let ?X0 = "h ! X" and ?Xn = "normalized h X"
  let ?c = "sum_axis1 ?X0"
  from assms have sh: "shape ?X0 = (n, n)" and len: "length (rows ?X0) = n"
    by (simp_all add: adjacency_wf_def)
  from normalized_rows[of h X] sh len have
    shn: "shape ?Xn = (n, n)" and lenn: "length (rows ?Xn) = n" and
    rw: "\<And>i. i < n \<Longrightarrow> rows ?Xn ! i =
        (if ?c ! i \<noteq> 0 then map (\<lambda>(j, v). (j, v * (1 / ?c ! i))) (rows ?X0 ! i)
         else rows ?X0 ! i)"
    by auto
  have ent: "\<forall>e\<in>set (rows ?Xn ! i). fst e < n \<and> 0 \<le> snd e" if i: "i < n" for i
  proof (cases "?c ! i = 0")
    case True
    with rw[OF i] wf_row[OF assms i] show ?thesis by simp
  next
    case False
    with wf_row_sum(2)[OF assms i] have "0 < ?c ! i" by simp
    then have "0 \<le> 1 / ?c ! i" by simp
    with wf_row[OF assms i] rw[OF i] False show ?thesis by (auto simp: case_prod_beta)
  qed
  have "list_all (\<lambda>row. list_all (\<lambda>e. fst e < n \<and> 0 \<le> snd e) row) (rows ?Xn)"
    unfolding list_all_iff
  proof
    fix row assume "row \<in> set (rows ?Xn)"
    then obtain i where "i < n" "row = rows ?Xn ! i" using lenn by (auto simp: in_set_conv_nth)
    with ent show "\<forall>e\<in>set row. fst e < n \<and> 0 \<le> snd e" by simp
  qed
  with shn lenn show wfn: "adjacency_wf n ?Xn" by (simp add: adjacency_wf_def)
  show "\<forall>i<n. sum_axis1 ?Xn ! i = (if ?c ! i = 0 then 0 else 1)"
  proof (intro allI impI)
    fix i assume i: "i < n"
    show "sum_axis1 ?Xn ! i = (if ?c ! i = 0 then 0 else 1)"
    proof (cases "?c ! i = 0")
      case True
      with rw[OF i] wf_row_sum(1)[OF assms i] wf_row_sum(1)[OF wfn i] show ?thesis by simp
    next
      case False
      with rw[OF i] have
        "rows ?Xn ! i = map (\<lambda>(j, v). (j, v * (1 / ?c ! i))) (rows ?X0 ! i)" by simp
      then have "sum_list (map snd (rows ?Xn ! i))
                   = sum_list (map snd (rows ?X0 ! i)) * (1 / ?c ! i)"
        by (simp only: sum_scaled_row)
      also have "\<dots> = ?c ! i * (1 / ?c ! i)" by (simp only: wf_row_sum(1)[OF assms i])
      also have "\<dots> = 1" using False by simp
      finally show ?thesis using False wf_row_sum(1)[OF wfn i] by simp
    qed
  qed
qed

text \<open>
  Claim C5. For an adjacency matrix (square, stored entries inside the shape and
  nonnegative) and every row \<open>i\<close>: after the normalisation loop of
  \<^verbatim>\<open>centrality_scores\<close> a row of positive out-degree sums to 1, a row of out-degree 0 is
  unchanged and holds only zeros, and the dangling vector holds \<open>1 / n\<close> at the rows of
  out-degree 0 and 0 at the others. Sums are exact here, the arithmetic being that of the
  real numbers.
\<close>

theorem normalized_rows_stochastic:
  assumes "adjacency_wf n (h ! X)" and "i < n"
  shows "(0 < sum_axis1 (h ! X) ! i \<longrightarrow> sum_axis1 (normalized h X) ! i = 1) \<and>
         (sum_axis1 (h ! X) ! i = 0 \<longrightarrow>
            rows (normalized h X) ! i = rows (h ! X) ! i \<and>
            list_all (\<lambda>e. snd e = 0) (rows (normalized h X) ! i)) \<and>
         length (dangle_vector n (normalized h X)) = n \<and>
         dangle_vector n (normalized h X) ! i
           = (if sum_axis1 (h ! X) ! i = 0 then 1 / real n else 0) \<and>
         snd (centrality_scores h X alpha max_iter tol) ! length h = normalized h X"
proof -
  let ?X0 = "h ! X" and ?Xn = "normalized h X"
  note wfn = normalized_wf[OF assms(1)]
  from wfn(1) have lenn: "length (rows ?Xn) = n" by (simp add: adjacency_wf_def)
  from assms(1) have len: "length (rows ?X0) = n" by (simp add: adjacency_wf_def)
  have s: "sum_axis1 ?Xn ! i = (if sum_axis1 ?X0 ! i = 0 then 0 else 1)"
    using wfn(2) assms(2) by simp
  have 1: "0 < sum_axis1 ?X0 ! i \<longrightarrow> sum_axis1 ?Xn ! i = 1" using s by simp
  have 2: "rows ?Xn ! i = rows ?X0 ! i \<and> list_all (\<lambda>e. snd e = 0) (rows ?Xn ! i)"
    if z: "sum_axis1 ?X0 ! i = 0"
  proof -
    from normalized_rows[of h X] len assms(2) z have eq: "rows ?Xn ! i = rows ?X0 ! i" by simp
    from wf_row[OF assms] have nn: "\<forall>x\<in>set (map snd (rows ?X0 ! i)). 0 \<le> x" by simp
    from z wf_row_sum(1)[OF assms] have "sum_list (map snd (rows ?X0 ! i)) = 0" by simp
    with nn have "\<forall>x\<in>set (map snd (rows ?X0 ! i)). x = 0"
      using sum_list_nonneg_eq_0_iff[of "map snd (rows ?X0 ! i)"] by blast
    with eq show ?thesis by (simp add: list_all_iff)
  qed
  have 3: "length (dangle_vector n ?Xn) = n" by (simp add: dangle_vector_def sum_axis1_def lenn)
  have 4: "dangle_vector n ?Xn ! i = (if sum_axis1 ?X0 ! i = 0 then 1 / real n else 0)"
    using s assms(2) lenn by (simp add: dangle_vector_def sum_axis1_def)
  have 5: "snd (centrality_scores h X alpha max_iter tol) ! length h = ?Xn"
    by (simp add: centrality_scores_store normalized_def copy_def Let_def)
  from 1 2 3 4 5 show ?thesis by blast
qed

text \<open>A row with two unit entries and a dangling row.\<close>

theorem normalized_rows_stochastic_witness:
  "adjacency_wf 2 ([\<lparr>shape = (2, 2), rows = [[(0, 1), (1, 1)], []]\<rparr>] ! 0) \<and>
   (0::nat) < 2 \<and> (1::nat) < 2 \<and>
   normalized [\<lparr>shape = (2, 2), rows = [[(0, 1), (1, 1)], []]\<rparr>] 0
     = \<lparr>shape = (2, 2), rows = [[(0, 1 / 2), (1, 1 / 2)], []]\<rparr> \<and>
   sum_axis1 (normalized [\<lparr>shape = (2, 2), rows = [[(0, 1), (1, 1)], []]\<rparr>] 0) ! 0 = 1 \<and>
   dangle_vector 2 (normalized [\<lparr>shape = (2, 2), rows = [[(0, 1), (1, 1)], []]\<rparr>] 0) ! 0 = 0 \<and>
   dangle_vector 2 (normalized [\<lparr>shape = (2, 2), rows = [[(0, 1), (1, 1)], []]\<rparr>] 0) ! 1 = 1 / 2"
proof -
  let ?M = "\<lparr>shape = (2, 2), rows = [[(0, 1), (1, 1)], []]\<rparr>"
  have w: "adjacency_wf 2 ([?M] ! 0)" by (simp add: adjacency_wf_def)
  have c0: "sum_axis1 ([?M] ! 0) ! 0 = 2" and c1: "sum_axis1 ([?M] ! 0) ! 1 = 0"
    by (simp_all add: sum_axis1_def)
  have i0: "(0::nat) < 2" and i1: "(1::nat) < 2" by simp_all
  note t0 = normalized_rows_stochastic[OF w i0, of 1 0 0]
  note t1 = normalized_rows_stochastic[OF w i1, of 1 0 0]
  have e: "normalized [?M] 0 = \<lparr>shape = (2, 2), rows = [[(0, 1 / 2), (1, 1 / 2)], []]\<rparr>"
    by code_simp
  have a: "sum_axis1 (normalized [?M] 0) ! 0 = 1" using t0 c0 by simp
  have b: "dangle_vector 2 (normalized [?M] 0) ! 0 = 0" using t0 c0 by simp
  have c: "dangle_vector 2 (normalized [?M] 0) ! 1 = 1 / 2" using t1 c1 by simp
  from w i0 i1 e a b c show ?thesis by (iprover intro: conjI)
qed

subsection \<open>The vector-matrix product\<close>

lemma length_inner_fold:
  "length (fold (\<lambda>(j, v) acc. acc[j := acc ! j + c * v]) row acc) = length (acc :: real list)"
  by (induction row arbitrary: acc) (auto simp: case_prod_beta)

lemma length_outer_fold:
  "length (fold (\<lambda>(i, row) acc. fold (\<lambda>(j, v) acc. acc[j := acc ! j + s ! i * v]) row acc)
             irs acc) = length (acc :: real list)"
  by (induction irs arbitrary: acc) (auto simp: case_prod_beta length_inner_fold)

lemma length_vecmat: "length (vecmat scores X) = snd (shape X)"
  by (simp add: vecmat_def length_outer_fold)











subsection \<open>The damped update\<close>



lemma length_dangle: "adjacency_wf n X \<Longrightarrow> length (dangle_vector n X) = n"
  by (simp add: dangle_vector_def sum_axis1_def adjacency_wf_def)

lemma length_damped_update: "length (damped_update X dangle alpha n prev) = snd (shape X)"
  by (simp add: damped_update_def length_vecmat)




subsection \<open>The loop and its error paths\<close>

text \<open>On a square matrix no shape check fails: a round is the damped update, the error
  is defined and nonnegative, and the loop returns the vector of one of its rounds, the
  last one where the tolerance is not positive.\<close>

lemma update_scores_eq:
  "length prev = fst (shape X) \<Longrightarrow> length dangle = length prev \<Longrightarrow>
   update_scores X dangle alpha n prev = Inr (damped_update X dangle alpha n prev)"
  by (simp add: update_scores_def sparse_rmul_def np_dot_def damped_update_def)

lemma fold_max_ge: "x \<le> fold max ys (x::real)"
proof (induction ys arbitrary: x)
  case Nil
  show ?case by simp
next
  case (Cons y ys)
  have "x \<le> max y x" by simp
  also have "\<dots> \<le> fold max ys (max y x)" by (rule Cons.IH)
  finally show ?case by simp
qed

lemma amax_nonneg: "xs \<noteq> [] \<Longrightarrow> \<forall>x\<in>set xs. 0 \<le> x \<Longrightarrow> 0 \<le> amax xs"
proof -
  assume ne: "xs \<noteq> []" and nn: "\<forall>x\<in>set xs. 0 \<le> x"
  then obtain x ys where xs: "xs = x # ys" by (cases xs) auto
  have "0 \<le> x" using nn by (simp add: xs)
  also have "x \<le> amax xs" by (simp add: xs fold_max_ge)
  finally show ?thesis .
qed

lemma iteration_error_ok:
  assumes "scores \<noteq> []" and "length scores = length prev"
  shows "\<exists>err. iteration_error scores prev = Inr err \<and> 0 \<le> err"
proof -
  let ?sm = "amax (map abs scores)"
  let ?m = "amax (map abs (map2 (-) scores prev))"
  have sm: "0 \<le> ?sm" using assms(1) by (intro amax_nonneg) auto
  have ne: "map2 (-) scores prev \<noteq> []" using assms by (cases scores; cases prev) auto
  then have m: "0 \<le> ?m" by (intro amax_nonneg) auto
  have "iteration_error scores prev = Inr (?m / (if ?sm = 0 then 1 else ?sm))"
    using assms ne by (simp add: iteration_error_def np_max_def np_sub_def Let_def)
  moreover have "0 \<le> ?m / (if ?sm = 0 then 1 else ?sm)" using sm m by simp
  ultimately show ?thesis by blast
qed

lemma rounds_funpow:
  assumes "shape X = (n, n)" and "length dangle = n"
  shows "length scores = n \<Longrightarrow>
         rounds X dangle alpha n k scores = Inr (((damped_update X dangle alpha n) ^^ k) scores)"
proof (induction k arbitrary: scores)
  case 0
  then show ?case by simp
next
  case (Suc k)
  let ?s = "damped_update X dangle alpha n scores"
  have u: "update_scores X dangle alpha n scores = Inr ?s"
    using assms Suc.prems by (intro update_scores_eq) simp_all
  have "length ?s = n" using assms(1) by (simp add: length_damped_update)
  from Suc.IH[OF this] u show ?case by (simp add: funpow_swap1)
qed

lemma length_funpow_damped:
  assumes "shape X = (n, n)" and "length scores = n"
  shows "length (((damped_update X dangle alpha n) ^^ k) scores) = n"
  using assms by (cases k) (simp_all add: length_damped_update)

lemma power_iteration_rounds:
  assumes "shape X = (n, n)" and "length dangle = n" and "0 < n"
  shows "length scores = n \<Longrightarrow>
         \<exists>j\<le>k. power_iteration X dangle alpha n tol k scores = rounds X dangle alpha n j scores \<and>
               (tol \<le> 0 \<or> exhausts X dangle alpha n tol k scores \<longrightarrow> j = k)"
proof (induction k arbitrary: scores)
  case 0
  then show ?case by simp
next
  case (Suc k)
  let ?s = "damped_update X dangle alpha n scores"
  have u: "update_scores X dangle alpha n scores = Inr ?s"
    using assms Suc.prems by (intro update_scores_eq) simp_all
  have l: "length ?s = n" using assms(1) by (simp add: length_damped_update)
  with assms(3) Suc.prems have "?s \<noteq> []" "length ?s = length scores" by auto
  from iteration_error_ok[OF this] obtain err where
    err: "iteration_error ?s scores = Inr err" "0 \<le> err" by blast
  show ?case
  proof (cases "err < real n * tol")
    case True
    then have p: "power_iteration X dangle alpha n tol (Suc k) scores
                 = rounds X dangle alpha n 1 scores" using u err by simp
    from True err(2) have "\<not> tol \<le> 0"
      by (metis mult_nonneg_nonpos not_less of_nat_0_le_iff order_trans)
    moreover from True u err have "\<not> exhausts X dangle alpha n tol (Suc k) scores" by simp
    ultimately show ?thesis using p by (intro exI[of _ 1]) simp
  next
    case False
    from Suc.IH[OF l] obtain j where j: "j \<le> k"
      "power_iteration X dangle alpha n tol k ?s = rounds X dangle alpha n j ?s"
      "tol \<le> 0 \<or> exhausts X dangle alpha n tol k ?s \<longrightarrow> j = k"
      by blast
    from False u err j(2) have "power_iteration X dangle alpha n tol (Suc k) scores
        = rounds X dangle alpha n (Suc j) scores" by simp
    moreover from False u err j(3) have
      "tol \<le> 0 \<or> exhausts X dangle alpha n tol (Suc k) scores \<longrightarrow> Suc j = Suc k" by simp
    ultimately show ?thesis using j(1) by (intro exI[of _ "Suc j"]) simp
  qed
qed

lemma centrality_scores_rounds:
  assumes "adjacency_wf n (h ! X)" and "0 < n"
  shows "\<exists>k\<le>nat max_iter.
           fst (centrality_scores h X alpha max_iter tol)
             = rounds (normalized h X) (dangle_vector n (normalized h X)) alpha n k
                 (replicate n (1 / real n)) \<and>
           rounds (normalized h X) (dangle_vector n (normalized h X)) alpha n k
               (replicate n (1 / real n))
             = Inr (((damped_update (normalized h X) (dangle_vector n (normalized h X)) alpha n) ^^ k)
                      (replicate n (1 / real n))) \<and>
           (tol \<le> 0 \<or> exhausts_max_iter h X alpha max_iter tol \<longrightarrow> k = nat max_iter)"
proof -
  let ?Xn = "normalized h X"
  let ?d = "dangle_vector n ?Xn"
  let ?s0 = "replicate n (1 / real n)"
  from assms(1) have sh: "shape (h ! X) = (n, n)" by (simp add: adjacency_wf_def)
  note wfn = normalized_wf(1)[OF assms(1)]
  from wfn have shn: "shape ?Xn = (n, n)" by (simp add: adjacency_wf_def)
  have ld: "length ?d = n" by (rule length_dangle[OF wfn])
  have l0: "length ?s0 = n" by simp
  from power_iteration_rounds[OF shn ld assms(2) l0, of "nat max_iter" alpha tol] obtain j where
    j: "j \<le> nat max_iter"
       "power_iteration ?Xn ?d alpha n tol (nat max_iter) ?s0 = rounds ?Xn ?d alpha n j ?s0"
       "tol \<le> 0 \<or> exhausts ?Xn ?d alpha n tol (nat max_iter) ?s0 \<longrightarrow> j = nat max_iter"
    by blast
  have r: "fst (centrality_scores h X alpha max_iter tol) = rounds ?Xn ?d alpha n j ?s0"
    using sh assms(2) j(2) by (simp add: centrality_scores_result Let_def)
  have e: "tol \<le> 0 \<or> exhausts_max_iter h X alpha max_iter tol \<longrightarrow> j = nat max_iter"
    using j(3) sh by (simp add: exhausts_max_iter_def Let_def)
  from j(1) r rounds_funpow[OF shn ld l0, of alpha j] e show ?thesis by blast
qed

text \<open>The two exceptions of the function: \<^verbatim>\<open>1.0 / n\<close> on a matrix without rows, and
  the subtraction \<^verbatim>\<open>scores - prev_scores\<close> of vectors of lengths 3 and 2 on a matrix
  that is not square.\<close>

lemma centrality_scores_empty:
  "fst (shape (h ! X)) = 0 \<Longrightarrow>
   fst (centrality_scores h X alpha max_iter tol) = Inl ZeroDivisionError"
  by (simp add: centrality_scores_result)

lemma centrality_scores_not_square:
  "fst (centrality_scores [\<lparr>shape = (2, 3), rows = [[(1, 1)], []]\<rparr>] 0 (1 / 2) 1 (1 / 10 ^ 10))
     = Inl ValueError \<and>
   \<not> exhausts_max_iter [\<lparr>shape = (2, 3), rows = [[(1, 1)], []]\<rparr>] 0 (1 / 2) 1 (1 / 10 ^ 10)"
  by code_simp

subsection \<open>Claims on the interface of \<^verbatim>\<open>centrality_scores\<close>\<close>

text \<open>
  Claim C9. \<^verbatim>\<open>centrality_scores\<close> leaves every object that existed before the call as
  it was, the caller's matrix among them: the rows are rescaled in a fresh copy, which
  is the only object the call adds to the store.
\<close>

theorem caller_matrix_unchanged:
  assumes "X < length h"
  shows "take (length h) (snd (centrality_scores h X alpha max_iter tol)) = h \<and>
         snd (centrality_scores h X alpha max_iter tol) ! X = h ! X \<and>
         snd (centrality_scores h X alpha max_iter tol) ! length h = normalized h X"
proof -
  let ?h' = "snd (centrality_scores h X alpha max_iter tol)"
  have t: "take (length h) ?h' = h"
    using normalize_frame[of "nonzero (sum_axis1 (h ! X))" "sum_axis1 (h ! X)" "length h" "h @ [h ! X]"]
    by (simp add: centrality_scores_store)
  have "?h' ! X = take (length h) ?h' ! X" using assms by simp
  with t have "?h' ! X = h ! X" by simp
  moreover have "?h' ! length h = normalized h X"
    by (simp add: centrality_scores_store normalized_def copy_def Let_def)
  ultimately show ?thesis using t by simp
qed

text \<open>A row with two unit entries: the copy holds the halves, the original the units.\<close>

theorem caller_matrix_unchanged_witness:
  "(0::nat) < length [\<lparr>shape = (2, 2), rows = [[(0, 1), (1, 1)], []]\<rparr>] \<and>
   snd (centrality_scores [\<lparr>shape = (2, 2), rows = [[(0, 1), (1, 1)], []]\<rparr>] 0 (17 / 20) 100 (1 / 10 ^ 10)) ! 0
     = [\<lparr>shape = (2, 2), rows = [[(0, 1), (1, 1)], []]\<rparr>] ! 0 \<and>
   snd (centrality_scores [\<lparr>shape = (2, 2), rows = [[(0, 1), (1, 1)], []]\<rparr>] 0 (17 / 20) 100 (1 / 10 ^ 10))
     = [\<lparr>shape = (2, 2), rows = [[(0, 1), (1, 1)], []]\<rparr>,
        \<lparr>shape = (2, 2), rows = [[(0, 1 / 2), (1, 1 / 2)], []]\<rparr>]"
proof -
  let ?M = "\<lparr>shape = (2, 2), rows = [[(0, 1), (1, 1)], []]\<rparr>"
  have l: "(0::nat) < length [?M]" by simp
  note th = caller_matrix_unchanged[OF l, of "17 / 20" 100 "1 / 10 ^ 10", THEN conjunct2, THEN conjunct1]
  have e: "snd (centrality_scores [?M] 0 (17 / 20) 100 (1 / 10 ^ 10))
     = [?M, \<lparr>shape = (2, 2), rows = [[(0, 1 / 2), (1, 1 / 2)], []]\<rparr>]" by code_simp
  from l th e show ?thesis by (iprover intro: conjI)
qed

text \<open>
  Claim C3, as stated, fails: the function has no validation. A damping factor of 3, a
  \<open>max_iter\<close> of 0 and a tolerance of 0 are each accepted; the graph is normalised and
  a score vector is returned (with a negative entry for the damping factor 3).
\<close>

theorem invalid_parameters_accepted:
  "centrality_scores [\<lparr>shape = (2, 2), rows = [[(1, 1)], []]\<rparr>] 0 3 1 (1 / 10 ^ 10)
     = (Inr [- 1 / 4, 5 / 4],
        [\<lparr>shape = (2, 2), rows = [[(1, 1)], []]\<rparr>, \<lparr>shape = (2, 2), rows = [[(1, 1)], []]\<rparr>]) \<and>
   centrality_scores [\<lparr>shape = (2, 2), rows = [[(1, 1)], []]\<rparr>] 0 (17 / 20) 0 (1 / 10 ^ 10)
     = (Inr [1 / 2, 1 / 2],
        [\<lparr>shape = (2, 2), rows = [[(1, 1)], []]\<rparr>, \<lparr>shape = (2, 2), rows = [[(1, 1)], []]\<rparr>]) \<and>
   centrality_scores [\<lparr>shape = (2, 2), rows = [[(1, 1)], []]\<rparr>] 0 (17 / 20) 1 0
     = (Inr [23 / 80, 57 / 80],
        [\<lparr>shape = (2, 2), rows = [[(1, 1)], []]\<rparr>, \<lparr>shape = (2, 2), rows = [[(1, 1)], []]\<rparr>])"
  by code_simp

text \<open>
  Claim C3, amended. On a well-formed matrix with at least one row,
  \<^verbatim>\<open>centrality_scores\<close> returns a score vector of length \<open>n\<close> for every damping factor,
  every \<open>max_iter\<close> and every tolerance; for \<open>max_iter \<le> 0\<close> it is the uniform initial
  guess.
\<close>

theorem no_parameter_validation:
  assumes "adjacency_wf n (h ! X)" and "0 < n"
  shows "\<exists>scores. fst (centrality_scores h X alpha max_iter tol) = Inr scores \<and>
           length scores = n \<and> (max_iter \<le> 0 \<longrightarrow> scores = replicate n (1 / real n))"
proof -
  let ?Xn = "normalized h X"
  let ?d = "dangle_vector n ?Xn"
  let ?s0 = "replicate n (1 / real n)"
  from normalized_wf(1)[OF assms(1)] have shn: "shape ?Xn = (n, n)" by (simp add: adjacency_wf_def)
  from centrality_scores_rounds[OF assms, of max_iter alpha tol] obtain k where
    k0: "k \<le> nat max_iter"
       "fst (centrality_scores h X alpha max_iter tol) = rounds ?Xn ?d alpha n k ?s0"
       "rounds ?Xn ?d alpha n k ?s0 = Inr (((damped_update ?Xn ?d alpha n) ^^ k) ?s0)"
    by blast
  then have k: "k \<le> nat max_iter"
       "fst (centrality_scores h X alpha max_iter tol)
          = Inr (((damped_update ?Xn ?d alpha n) ^^ k) ?s0)"
    by simp_all
  have "length (((damped_update ?Xn ?d alpha n) ^^ k) ?s0) = n"
    by (rule length_funpow_damped[OF shn]) simp
  moreover have "max_iter \<le> 0 \<longrightarrow> ((damped_update ?Xn ?d alpha n) ^^ k) ?s0 = ?s0"
  proof
    assume "max_iter \<le> 0"
    with k(1) have "k = 0" by simp
    then show "((damped_update ?Xn ?d alpha n) ^^ k) ?s0 = ?s0" by simp
  qed
  ultimately show ?thesis using k(2) by blast
qed

theorem no_parameter_validation_witness:
  "adjacency_wf 2 ([\<lparr>shape = (2, 2), rows = [[(1, 1)], []]\<rparr>] ! 0) \<and> (0::nat) < 2 \<and>
   (\<exists>scores. fst (centrality_scores [\<lparr>shape = (2, 2), rows = [[(1, 1)], []]\<rparr>] 0 3 (- 5) (- 1))
        = Inr scores \<and> length scores = 2 \<and>
        (- 5 \<le> (0::int) \<longrightarrow> scores = replicate 2 (1 / real 2)))"
proof -
  let ?M = "\<lparr>shape = (2, 2), rows = [[(1, 1)], []]\<rparr>"
  have w: "adjacency_wf 2 ([?M] ! 0)" by (simp add: adjacency_wf_def)
  have n: "(0::nat) < 2" by simp
  note th = no_parameter_validation[OF w n, of 3 "- 5" "- 1"]
  from w n th show ?thesis by (iprover intro: conjI)
qed




subsection \<open>Claim on the score vector\<close>









end
